theory Spec2Isabelle
  imports Main "HOL-Library.AList" "HOL-Library.Word"
begin

section \<open>Python values used by the preprocessors\<close>

text \<open>
  A Python \<open>str\<close> is a sequence of Unicode code points, so a string is a list of
  code points (natural numbers) and \<open>len\<close> counts code points.  A one-character
  string, as produced by \<open>for c in w\<close>, is a singleton list.
\<close>

type_synonym ustr = "nat list"

definition str :: "string \<Rightarrow> ustr" where
  "str s = map of_char s"

definition UNK :: ustr where
  "UNK = str ''<UNK>''"

definition PAD :: ustr where
  "PAD = str ''<PAD>''"

datatype error = KeyError ustr | KeyErrorId int | TypeError | ValueError | OverflowError

text \<open>
  Three things the source leaves to the Python runtime: \<open>str.lower\<close> (the Unicode
  case mapping), the order in which a \<open>set\<close> is iterated, and what numpy does with
  an integer that does not fit the \<open>int32\<close> array it is stored into.  They are
  parameters of the model.  \<open>set_iter xs\<close> is the order in which the set built from
  the elements \<open>xs\<close> yields them; any such order lists every element once.
  \<open>int32_wraps\<close> holds for a numpy that keeps the low 32 bits of a value that fits
  a C long of 64 bits (numpy before 2.0 where a C long has 64 bits); otherwise every
  value outside \<open>int32\<close> raises \<open>OverflowError\<close>.
\<close>

record runtime =
  str_lower :: "ustr \<Rightarrow> ustr"
  set_iter :: "ustr list \<Rightarrow> ustr list"
  int32_wraps :: bool

definition set_order :: "(ustr list \<Rightarrow> ustr list) \<Rightarrow> bool" where
  "set_order io \<longleftrightarrow> (\<forall>xs. distinct (io xs) \<and> set (io xs) = set xs)"

text \<open>On ASCII text \<open>str.lower\<close> maps \<open>A..Z\<close> to \<open>a..z\<close> and nothing else.\<close>

definition ascii_lower :: "ustr \<Rightarrow> ustr" where
  "ascii_lower w = map (\<lambda>c. if 65 \<le> c \<and> c \<le> 90 then c + 32 else c) w"

definition lower_on_ascii :: "(ustr \<Rightarrow> ustr) \<Rightarrow> bool" where
  "lower_on_ascii lw \<longleftrightarrow> (\<forall>w. (\<forall>c \<in> set w. c < 128) \<longrightarrow> lw w = ascii_lower w)"

definition rt0 :: runtime where
  "rt0 = \<lparr>str_lower = ascii_lower, set_iter = remdups, int32_wraps = True\<rparr>"

subsection \<open>Dictionaries\<close>

text \<open>
  A \<open>dict\<close> keeps its keys in insertion order; \<open>d[k] = v\<close> replaces the value of
  a present key in place and appends an absent one (\<open>AList.update\<close>), \<open>len(d)\<close>
  is the number of entries, \<open>d[k]\<close> raises \<open>KeyError\<close> on an absent key and
  \<open>d.get(k, v)\<close> falls back to \<open>v\<close>.
\<close>

type_synonym dict = "(ustr \<times> int) list"

definition setitem :: "dict \<Rightarrow> ustr \<Rightarrow> int \<Rightarrow> dict" where
  "setitem d k v = AList.update k v d"

definition len :: "dict \<Rightarrow> int" where
  "len d = int (length d)"

definition contains :: "dict \<Rightarrow> ustr \<Rightarrow> bool" where
  "contains d k \<longleftrightarrow> map_of d k \<noteq> None"

definition getitem :: "dict \<Rightarrow> ustr \<Rightarrow> error + int" where
  "getitem d k = (case map_of d k of None \<Rightarrow> Inl (KeyError k) | Some v \<Rightarrow> Inr v)"

definition get :: "dict \<Rightarrow> ustr \<Rightarrow> int \<Rightarrow> int" where
  "get d k v = (case map_of d k of None \<Rightarrow> v | Some i \<Rightarrow> i)"

text \<open>A list comprehension whose body may raise: the first exception ends it.\<close>

fun map_err :: "('a \<Rightarrow> error + 'b) \<Rightarrow> 'a list \<Rightarrow> error + 'b list" where
  "map_err f [] = Inr []"
| "map_err f (x # xs) =
     (case f x of
        Inl e \<Rightarrow> Inl e
      | Inr v \<Rightarrow> (case map_err f xs of Inl e \<Rightarrow> Inl e | Inr vs \<Rightarrow> Inr (v # vs)))"

section \<open>StaticPreprocessor\<close>

text \<open>\<open>re.sub(r'[0-9\<dots>]', r'0', text)\<close>: the ASCII digits and the ten full-width
  digits U+FF10..U+FF19 become the ASCII digit \<open>0\<close> (code point 48).\<close>

definition is_digit :: "nat \<Rightarrow> bool" where
  "is_digit c \<longleftrightarrow> (48 \<le> c \<and> c \<le> 57) \<or> (65296 \<le> c \<and> c \<le> 65305)"

definition normalize_number :: "ustr \<Rightarrow> ustr" where
  "normalize_number text = map (\<lambda>c. if is_digit c then 48 else c) text"

record preprocessor =
  lowercase :: bool
  num_norm :: bool
  char_feature :: bool
  vocab_init :: "ustr list"
  word_dic :: dict
  char_dic :: dict
  label_dic :: dict

definition init :: "bool \<Rightarrow> bool \<Rightarrow> bool \<Rightarrow> ustr list \<Rightarrow> preprocessor" where
  "init lc nn cf vi =
     \<lparr>lowercase = lc, num_norm = nn, char_feature = cf, vocab_init = vi,
      word_dic = [(PAD, 0), (UNK, 1)],
      char_dic = [(PAD, 0), (UNK, 1)],
      label_dic = [(PAD, 0)]\<rparr>"

text \<open>The two normalising steps applied to a word before it meets \<open>word_dic\<close>,
  in \<open>fit\<close> and in \<open>transform\<close> alike.\<close>

definition norm_word :: "runtime \<Rightarrow> preprocessor \<Rightarrow> ustr \<Rightarrow> ustr" where
  "norm_word rt p w =
     (let w1 = (if lowercase p then str_lower rt w else w);
          w2 = (if num_norm p then normalize_number w1 else w1)
      in w2)"

text \<open>The inner loop of \<open>fit\<close> over the characters of one word.\<close>

fun fit_chars :: "dict \<Rightarrow> ustr \<Rightarrow> dict" where
  "fit_chars d [] = d"
| "fit_chars d (c # cs) =
     (if contains d [c] then fit_chars d cs
      else fit_chars (setitem d [c] (len d)) cs)"

text \<open>The first loop of \<open>fit\<close>, over the words in the order the set yields them.\<close>

fun fit_words :: "runtime \<Rightarrow> preprocessor \<Rightarrow> ustr list \<Rightarrow> preprocessor" where
  "fit_words rt p [] = p"
| "fit_words rt p (w # ws) =
     (let p1 = (if char_feature p then p\<lparr>char_dic := fit_chars (char_dic p) w\<rparr> else p);
          w' = norm_word rt p1 w;
          p2 = p1\<lparr>word_dic := setitem (word_dic p1) w' (len (word_dic p1))\<rparr>
      in fit_words rt p2 ws)"

text \<open>The second loop of \<open>fit\<close>, over the labels.\<close>

fun fit_labels :: "preprocessor \<Rightarrow> ustr list \<Rightarrow> preprocessor" where
  "fit_labels p [] = p"
| "fit_labels p (t # ts) =
     fit_labels (p\<lparr>label_dic := setitem (label_dic p) t (len (label_dic p))\<rparr>) ts"

text \<open>
  \<open>fit(X, y)\<close> mutates the preprocessor; the model returns the new state and the
  exception, if any.  With \<open>y = None\<close> the word loop has already run when
  \<open>itertools.chain(*y)\<close> raises \<open>TypeError\<close>.
\<close>

definition fit ::
  "runtime \<Rightarrow> ustr list list \<Rightarrow> ustr list list option \<Rightarrow> preprocessor
     \<Rightarrow> preprocessor \<times> error option" where
  "fit rt X y p =
     (let p1 = fit_words rt p (set_iter rt (concat X @ vocab_init p))
      in case y of
           None \<Rightarrow> (p1, Some TypeError)
         | Some ys \<Rightarrow> (fit_labels p1 (set_iter rt (concat ys)), None))"

text \<open>\<open>_get_char_ids\<close>: \<open>self.char_dic[UNK]\<close> is evaluated for every character,
  before \<open>get\<close> is called.\<close>

definition get_char_ids :: "preprocessor \<Rightarrow> ustr \<Rightarrow> error + int list" where
  "get_char_ids p word =
     map_err (\<lambda>c. case getitem (char_dic p) UNK of
                     Inl e \<Rightarrow> Inl e
                   | Inr u \<Rightarrow> Inr (get (char_dic p) [c] u)) word"

text \<open>
  The body of the word loop of \<open>transform\<close>: the word id, and what is appended to
  \<open>char_ids\<close> (one list of character ids with \<open>char_feature\<close>, nothing without).
\<close>

definition transform_word ::
  "runtime \<Rightarrow> preprocessor \<Rightarrow> ustr \<Rightarrow> error + (int \<times> int list list)" where
  "transform_word rt p w =
     (case (if char_feature p
            then (case get_char_ids p w of Inl e \<Rightarrow> Inl e | Inr ids \<Rightarrow> Inr [ids])
            else Inr []) of
        Inl e \<Rightarrow> Inl e
      | Inr cs \<Rightarrow>
          (case getitem (word_dic p) UNK of
             Inl e \<Rightarrow> Inl e
           | Inr u \<Rightarrow> Inr (get (word_dic p) (norm_word rt p w) u, cs)))"

definition transform_sent ::
  "runtime \<Rightarrow> preprocessor \<Rightarrow> ustr list \<Rightarrow> error + (int list \<times> int list list)" where
  "transform_sent rt p sent =
     (case map_err (transform_word rt p) sent of
        Inl e \<Rightarrow> Inl e
      | Inr rs \<Rightarrow> Inr (map fst rs, concat (map snd rs)))"

text \<open>
  The result of \<open>transform\<close>: the list \<open>inputs\<close> is \<open>[words]\<close> or
  \<open>[words, chars]\<close>, and the label ids come with it when \<open>y\<close> was given.
  \<open>np.array\<close> keeps the nested lists as they are (ragged lists become arrays of
  lists), so it is the identity here.
\<close>

type_synonym features = "int list list \<times> int list list list option"

definition transform ::
  "runtime \<Rightarrow> ustr list list \<Rightarrow> ustr list list option \<Rightarrow> preprocessor
     \<Rightarrow> error + (features \<times> int list list option)" where
  "transform rt X y p =
     (case map_err (transform_sent rt p) X of
        Inl e \<Rightarrow> Inl e
      | Inr rs \<Rightarrow>
          (let words = map fst rs; chars = map snd rs
           in case (case y of
                      None \<Rightarrow> Inr None
                    | Some ys \<Rightarrow>
                        (case map_err (map_err (getitem (label_dic p))) ys of
                           Inl e \<Rightarrow> Inl e
                         | Inr ids \<Rightarrow> Inr (Some ids))) of
                Inl e \<Rightarrow> Inl e
              | Inr y' \<Rightarrow>
                  Inr ((words, if char_feature p then Some chars else None), y')))"

definition fit_transform ::
  "runtime \<Rightarrow> ustr list list \<Rightarrow> ustr list list option \<Rightarrow> preprocessor
     \<Rightarrow> preprocessor \<times> (error + (features \<times> int list list option))" where
  "fit_transform rt X y p =
     (case fit rt X y p of
        (p', Some e) \<Rightarrow> (p', Inl e)
      | (p', None) \<Rightarrow> (p', transform rt X y p'))"

text \<open>The dict comprehension \<open>{i: t for t, i in label_dic.items()}\<close>: entries are
  visited in insertion order and a later entry with the same id replaces an
  earlier one.\<close>

definition id2label :: "dict \<Rightarrow> (int \<times> ustr) list" where
  "id2label d = foldl (\<lambda>m (t, i). AList.update i t m) [] d"

definition inverse_transform ::
  "preprocessor \<Rightarrow> int list list \<Rightarrow> error + ustr list list" where
  "inverse_transform p docs =
     map_err (map_err (\<lambda>t. case map_of (id2label (label_dic p)) t of
                              None \<Rightarrow> Inl (KeyErrorId t)
                            | Some l \<Rightarrow> Inr l)) docs"

section \<open>DynamicPreprocessor\<close>

text \<open>The first loop of \<open>pad_nested_sequences\<close>, on the pair
  \<open>(maxlen_sent, maxlen_word)\<close>.\<close>

fun max_lens :: "int list list list \<Rightarrow> nat \<times> nat \<Rightarrow> nat \<times> nat" where
  "max_lens [] (ms, mw) = (ms, mw)"
| "max_lens (sent # rest) (ms, mw) =
     max_lens rest (max (length sent) ms, foldl (\<lambda>m word. max (length word) m) mw sent)"

text \<open>
  A Python int stored into an \<open>int32\<close> array.  A value in the \<open>int32\<close> range is
  kept.  Outside it the numpy at hand decides: it keeps the low 32 bits (two's
  complement) of a value that fits 64 bits and raises \<open>OverflowError\<close> beyond, or it
  raises \<open>OverflowError\<close> for every such value.
\<close>

definition store_int32 :: "runtime \<Rightarrow> int \<Rightarrow> error + int" where
  "store_int32 rt c =
     (if - (2 ^ 31) \<le> c \<and> c < 2 ^ 31 then Inr c
      else if int32_wraps rt \<and> - (2 ^ 63) \<le> c \<and> c < 2 ^ 63
           then Inr (sint (word_of_int c :: 32 word))
      else Inl OverflowError)"

definition zeros :: "nat \<Rightarrow> nat \<Rightarrow> nat \<Rightarrow> int list list list" where
  "zeros n m k = replicate n (replicate m (replicate k 0))"

text \<open>\<open>x[i, j, :len(word)] = word\<close>: every id of the word is converted to
  \<open>int32\<close>, the first failure ending the call.  The loops only reach indices inside
  the array and \<open>len(word)\<close> never exceeds the last dimension.\<close>

definition assign_word ::
  "runtime \<Rightarrow> int list list list \<Rightarrow> nat \<Rightarrow> nat \<Rightarrow> int list
     \<Rightarrow> error + int list list list" where
  "assign_word rt x i j word =
     (case map_err (store_int32 rt) word of
        Inl e \<Rightarrow> Inl e
      | Inr vs \<Rightarrow> Inr (x[i := (x ! i)[j := vs @ drop (length word) (x ! i ! j)]]))"

fun fill_sent ::
  "runtime \<Rightarrow> int list list list \<Rightarrow> nat \<Rightarrow> nat \<Rightarrow> int list list
     \<Rightarrow> error + int list list list" where
  "fill_sent rt x i j [] = Inr x"
| "fill_sent rt x i j (word # ws) =
     (case assign_word rt x i j word of
        Inl e \<Rightarrow> Inl e
      | Inr x' \<Rightarrow> fill_sent rt x' i (Suc j) ws)"

fun fill ::
  "runtime \<Rightarrow> int list list list \<Rightarrow> nat \<Rightarrow> int list list list
     \<Rightarrow> error + int list list list" where
  "fill rt x i [] = Inr x"
| "fill rt x i (sent # ss) =
     (case fill_sent rt x i 0 sent of
        Inl e \<Rightarrow> Inl e
      | Inr x' \<Rightarrow> fill rt x' (Suc i) ss)"

definition pad_nested_sequences ::
  "runtime \<Rightarrow> int list list list \<Rightarrow> error + int list list list" where
  "pad_nested_sequences rt sequences =
     (case max_lens sequences (0, 0) of
        (maxlen_sent, maxlen_word) \<Rightarrow>
          fill rt (zeros (length sequences) maxlen_sent maxlen_word) 0 sequences)"

text \<open>
  Modelled from the spec: \<open>pad_sequences\<close> of the Keras library, called with
  \<open>padding='post'\<close>, is not part of the repository.  The spec: each sequence is
  padded on the right with \<open>0\<close> to the length of the longest sequence of the batch.
\<close>

definition longest :: "'a list list \<Rightarrow> nat" where
  "longest seqs = foldr (\<lambda>s m. max (length s) m) seqs 0"

definition pad_sequences :: "int list list \<Rightarrow> int list list" where
  "pad_sequences seqs = map (\<lambda>s. s @ replicate (longest seqs - length s) 0) seqs"

text \<open>
  Modelled from the spec: \<open>to_categorical\<close> of the Keras library is not part of
  the repository.  The spec: each id \<open>k\<close> becomes a vector of width \<open>labelCount\<close>
  with a \<open>1\<close> at position \<open>k\<close> and \<open>0\<close> elsewhere.
\<close>

definition one_hot :: "nat \<Rightarrow> int \<Rightarrow> int list" where
  "one_hot n k = map (\<lambda>i. if int i = k then 1 else 0) [0..<n]"

definition to_categorical :: "int list list \<Rightarrow> nat \<Rightarrow> int list list list" where
  "to_categorical y n = map (map (one_hot n)) y"

record dynamic_preprocessor =
  n_labels :: nat

text \<open>
  \<open>DynamicPreprocessor.transform\<close>.  \<open>words, chars = X\<close> unpacks a list of exactly
  two arrays; on the one-element list \<open>[words]\<close> it raises \<open>ValueError\<close>.
\<close>

definition dynamic_transform ::
  "runtime \<Rightarrow> dynamic_preprocessor \<Rightarrow> features \<Rightarrow> int list list option
     \<Rightarrow> error + ((int list list \<times> int list list list) \<times> int list list list option)" where
  "dynamic_transform rt dp X y =
     (case X of
        (words, None) \<Rightarrow> Inl ValueError
      | (words, Some chars) \<Rightarrow>
          (let words' = pad_sequences words
           in case pad_nested_sequences rt chars of
                Inl e \<Rightarrow> Inl e
              | Inr chars' \<Rightarrow>
                  (let y' = (case y of
                               None \<Rightarrow> None
                             | Some ys \<Rightarrow>
                                 Some (to_categorical (pad_sequences ys) (n_labels dp)))
                   in Inr ((words', chars'), y'))))"

section \<open>Auxiliary notions for the statements\<close>

text \<open>What a caller gets who calls \<open>fit\<close> and then, unless it raised,
  \<open>transform\<close> on the same arguments.\<close>

definition fit_then_transform ::
  "runtime \<Rightarrow> ustr list list \<Rightarrow> ustr list list option \<Rightarrow> preprocessor
     \<Rightarrow> preprocessor \<times> (error + (features \<times> int list list option))" where
  "fit_then_transform rt X y p =
     (let r = fit rt X y p
      in (fst r, case snd r of Some e \<Rightarrow> Inl e | None \<Rightarrow> transform rt X y (fst r)))"

text \<open>Assigning the next id to each key of a list in turn, as both loops of
  \<open>fit\<close> do on \<open>word_dic\<close> and \<open>label_dic\<close>.\<close>

definition assign_all :: "dict \<Rightarrow> ustr list \<Rightarrow> dict" where
  "assign_all d ks = foldl (\<lambda>d k. setitem d k (len d)) d ks"

text \<open>What the loops of \<open>pad_nested_sequences\<close> write when no conversion
  fails: the inner one to the row \<open>x[i]\<close>, the outer one to the array.\<close>

fun fill_row :: "int list list \<Rightarrow> nat \<Rightarrow> int list list \<Rightarrow> int list list" where
  "fill_row row j [] = row"
| "fill_row row j (word # ws) =
     fill_row (row[j := word @ drop (length word) (row ! j)]) (Suc j) ws"

fun fill_all ::
  "int list list list \<Rightarrow> nat \<Rightarrow> int list list list \<Rightarrow> int list list list" where
  "fill_all x i [] = x"
| "fill_all x i (sent # ss) = fill_all (x[i := fill_row (x ! i) 0 sent]) (Suc i) ss"

section \<open>Evaluation on concrete inputs\<close>

lemma str_simps: "str [] = []" "str (c # cs) = of_char c # str cs"
  by (simp_all add: str_def)

lemmas ev = str_simps PAD_def UNK_def rt0_def init_def norm_word_def ascii_lower_def
  normalize_number_def is_digit_def setitem_def len_def contains_def getitem_def get_def
  fit_def Let_def transform_def transform_sent_def transform_word_def get_char_ids_def
  dynamic_transform_def

text \<open>The conversion to \<open>int32\<close> and the padding on some inputs, inside and outside
  the range.\<close>

lemma store_int32_examples:
  "store_int32 rt0 2147483648 = Inr (- 2147483648)
   \<and> store_int32 rt0 9223372036854775808 = Inl OverflowError
   \<and> store_int32 (rt0\<lparr>int32_wraps := False\<rparr>) 2147483648 = Inl OverflowError
   \<and> pad_nested_sequences (rt0\<lparr>int32_wraps := False\<rparr>) [[[1], [2147483648]]]
       = Inl OverflowError
   \<and> pad_nested_sequences rt0 [[[1, 2], [3]], [[4, 5, 6]]]
       = Inr [[[1, 2, 0], [3, 0, 0]], [[4, 5, 6], [0, 0, 0]]]
   \<and> pad_nested_sequences rt0 [[[], []], []] = Inr [[[], []], [[], []]]"
  by (simp add: store_int32_def rt0_def pad_nested_sequences_def zeros_def assign_word_def)

section \<open>Comprehensions that may raise\<close>

lemma map_err_Inr: "(\<And>x. x \<in> set xs \<Longrightarrow> f x = Inr (g x)) \<Longrightarrow> map_err f xs = Inr (map g xs)"
  by (induction xs) simp_all

lemma map_err_Inl: "map_err f xs = Inl e \<Longrightarrow> \<exists>x \<in> set xs. f x = Inl e"
  by (induction xs) (auto split: sum.splits)

lemma map_err_raises:
  "x \<in> set xs \<Longrightarrow> f x = Inl e \<Longrightarrow> \<exists>e'. map_err f xs = Inl e'"
  by (induction xs) (auto split: sum.splits)

section \<open>The dictionaries that fit builds\<close>

lemma assign_all_simps [simp]:
  "assign_all d [] = d"
  "assign_all d (k # ks) = assign_all (setitem d k (len d)) ks"
  by (simp_all add: assign_all_def)

lemma fit_words_flags [simp]:
  "lowercase (fit_words rt p ws) = lowercase p"
  "num_norm (fit_words rt p ws) = num_norm p"
  "char_feature (fit_words rt p ws) = char_feature p"
  "vocab_init (fit_words rt p ws) = vocab_init p"
  "label_dic (fit_words rt p ws) = label_dic p"
  by (induction rt p ws rule: fit_words.induct; simp add: Let_def)+

lemma norm_word_cong:
  "lowercase p = lowercase q \<Longrightarrow> num_norm p = num_norm q \<Longrightarrow> norm_word rt p w = norm_word rt q w"
  by (simp add: norm_word_def)

lemma fit_words_word_dic:
  "word_dic (fit_words rt p ws) = assign_all (word_dic p) (map (norm_word rt p) ws)"
proof (induction rt p ws rule: fit_words.induct)
  case (1 rt p)
  then show ?case by simp
next
  case (2 rt p w ws)
  then show ?case by (simp add: Let_def norm_word_def)
qed

lemma fit_words_char_dic:
  "char_dic (fit_words rt p ws) =
     (if char_feature p then foldl fit_chars (char_dic p) ws else char_dic p)"
  by (induction rt p ws rule: fit_words.induct) (simp_all add: Let_def)

lemma fit_labels_flags [simp]:
  "lowercase (fit_labels p ts) = lowercase p"
  "num_norm (fit_labels p ts) = num_norm p"
  "char_feature (fit_labels p ts) = char_feature p"
  "vocab_init (fit_labels p ts) = vocab_init p"
  "word_dic (fit_labels p ts) = word_dic p"
  "char_dic (fit_labels p ts) = char_dic p"
  by (induction p ts rule: fit_labels.induct; simp)+

lemma fit_labels_label_dic:
  "label_dic (fit_labels p ts) = assign_all (label_dic p) ts"
  by (induction p ts rule: fit_labels.induct) simp_all

lemma keys_setitem: "fst ` set (setitem d k v) = insert k (fst ` set d)"
  by (auto simp add: setitem_def update_keys simp flip: set_map)

lemma keys_assign_all: "fst ` set (assign_all d ks) = fst ` set d \<union> set ks"
  by (induction ks arbitrary: d) (auto simp: keys_setitem)

lemma map_of_setitem: "map_of (setitem d k v) k' = (if k' = k then Some v else map_of d k')"
  by (simp add: setitem_def update_conv')

lemma map_of_assign_all_other: "k \<notin> set ks \<Longrightarrow> map_of (assign_all d ks) k = map_of d k"
  by (induction ks arbitrary: d) (auto simp: map_of_setitem)

lemma contains_keys: "contains d k \<longleftrightarrow> k \<in> fst ` set d"
  by (simp add: contains_def map_of_eq_None_iff)

lemma keys_fit_chars: "fst ` set (fit_chars d w) = fst ` set d \<union> (\<lambda>c. [c]) ` set w"
  by (induction d w rule: fit_chars.induct) (auto simp: keys_setitem contains_keys)

lemma map_of_fit_chars_other: "length k \<noteq> 1 \<Longrightarrow> map_of (fit_chars d w) k = map_of d k"
  by (induction d w rule: fit_chars.induct) (auto simp: map_of_setitem)

lemma keys_foldl_fit_chars:
  "fst ` set (foldl fit_chars d ws) = fst ` set d \<union> (\<lambda>c. [c]) ` \<Union>(set ` set ws)"
  by (induction ws arbitrary: d) (auto simp: keys_fit_chars)

lemma map_of_foldl_fit_chars_other:
  "length k \<noteq> 1 \<Longrightarrow> map_of (foldl fit_chars d ws) k = map_of d k"
  by (induction ws arbitrary: d) (auto simp: map_of_fit_chars_other)

section \<open>What transform computes\<close>

lemma get_char_ids_ok:
  "map_of (char_dic p) UNK = Some uc \<Longrightarrow>
   get_char_ids p w = Inr (map (\<lambda>c. get (char_dic p) [c] uc) w)"
  unfolding get_char_ids_def by (rule map_err_Inr) (simp add: getitem_def)

lemma transform_word_ok:
  "map_of (word_dic p) UNK = Some uw \<Longrightarrow> map_of (char_dic p) UNK = Some uc \<Longrightarrow>
   transform_word rt p w =
     Inr (get (word_dic p) (norm_word rt p w) uw,
          if char_feature p then [map (\<lambda>c. get (char_dic p) [c] uc) w] else [])"
  by (simp add: transform_word_def get_char_ids_ok getitem_def)

lemma transform_sent_ok:
  assumes "map_of (word_dic p) UNK = Some uw" "map_of (char_dic p) UNK = Some uc"
  shows "transform_sent rt p sent =
     Inr (map (\<lambda>w. get (word_dic p) (norm_word rt p w) uw) sent,
          if char_feature p then map (map (\<lambda>c. get (char_dic p) [c] uc)) sent else [])"
proof -
  have "map_err (transform_word rt p) sent =
      Inr (map (\<lambda>w. (get (word_dic p) (norm_word rt p w) uw,
          if char_feature p then [map (\<lambda>c. get (char_dic p) [c] uc) w] else [])) sent)"
    by (rule map_err_Inr) (simp add: transform_word_ok [OF assms])
  then show ?thesis
    by (simp add: transform_sent_def comp_def concat_map_singleton)
qed

lemma transform_words_ok:
  assumes "map_of (word_dic p) UNK = Some uw" "map_of (char_dic p) UNK = Some uc"
  shows "map_err (transform_sent rt p) X =
     Inr (map (\<lambda>sent. (map (\<lambda>w. get (word_dic p) (norm_word rt p w) uw) sent,
          if char_feature p then map (map (\<lambda>c. get (char_dic p) [c] uc)) sent else [])) X)"
  by (rule map_err_Inr) (simp add: transform_sent_ok [OF assms])

lemma transform_None_ok:
  assumes "map_of (word_dic p) UNK = Some uw" "map_of (char_dic p) UNK = Some uc"
  shows "transform rt X None p =
     Inr ((map (map (\<lambda>w. get (word_dic p) (norm_word rt p w) uw)) X,
           if char_feature p then Some (map (map (map (\<lambda>c. get (char_dic p) [c] uc))) X)
           else None), None)"
  by (simp add: transform_def transform_words_ok [OF assms] comp_def)

lemma transform_Some_ok:
  assumes "map_of (word_dic p) UNK = Some uw" "map_of (char_dic p) UNK = Some uc"
  shows "transform rt X (Some y) p =
     (case map_err (map_err (getitem (label_dic p))) y of
        Inl e \<Rightarrow> Inl e
      | Inr ids \<Rightarrow>
         Inr ((map (map (\<lambda>w. get (word_dic p) (norm_word rt p w) uw)) X,
           if char_feature p then Some (map (map (map (\<lambda>c. get (char_dic p) [c] uc))) X)
           else None), Some ids))"
  by (simp add: transform_def transform_words_ok [OF assms] comp_def split: sum.splits)

section \<open>The reserved keys after fit\<close>

lemma length_UNK: "length UNK = 5" and length_PAD: "length PAD = 5" and UNK_neq_PAD: "UNK \<noteq> PAD"
  by (simp_all add: UNK_def PAD_def str_def)

lemma init_fields [simp]:
  "lowercase (init lc nn cf vi) = lc" "num_norm (init lc nn cf vi) = nn"
  "char_feature (init lc nn cf vi) = cf" "vocab_init (init lc nn cf vi) = vi"
  "word_dic (init lc nn cf vi) = [(PAD, 0), (UNK, 1)]"
  "char_dic (init lc nn cf vi) = [(PAD, 0), (UNK, 1)]"
  "label_dic (init lc nn cf vi) = [(PAD, 0)]"
  by (simp_all add: init_def)

lemma fit_fields:
  "lowercase (fst (fit rt X y p)) = lowercase p"
  "num_norm (fst (fit rt X y p)) = num_norm p"
  "char_feature (fst (fit rt X y p)) = char_feature p"
  "word_dic (fst (fit rt X y p)) =
     assign_all (word_dic p) (map (norm_word rt p) (set_iter rt (concat X @ vocab_init p)))"
  "char_dic (fst (fit rt X y p)) =
     (if char_feature p then foldl fit_chars (char_dic p) (set_iter rt (concat X @ vocab_init p))
      else char_dic p)"
  by (simp_all add: fit_def Let_def fit_words_word_dic fit_words_char_dic split: option.splits)

lemma fit_label_dic:
  "label_dic (fst (fit rt X (Some ys) p)) = assign_all (label_dic p) (set_iter rt (concat ys))"
  by (simp add: fit_def Let_def fit_labels_label_dic)

lemma fit_char_unk:
  "map_of (char_dic p) UNK = Some u \<Longrightarrow> map_of (char_dic (fst (fit rt X y p))) UNK = Some u"
  by (simp add: fit_fields map_of_foldl_fit_chars_other length_UNK)

lemma fit_word_unk:
  "contains (word_dic p) UNK \<Longrightarrow> \<exists>u. map_of (word_dic (fst (fit rt X y p))) UNK = Some u"
proof -
  assume "contains (word_dic p) UNK"
  then have "contains (word_dic (fst (fit rt X y p))) UNK"
    by (simp add: contains_keys fit_fields keys_assign_all)
  then show ?thesis by (simp add: contains_def)
qed

lemma init_unk:
  "map_of (char_dic (init lc nn cf vi)) UNK = Some 1"
  "map_of (word_dic (init lc nn cf vi)) UNK = Some 1"
  "contains (word_dic (init lc nn cf vi)) UNK"
  using UNK_neq_PAD by (auto simp add: contains_def)

section \<open>Nested comprehensions\<close>

lemma map_err2_Inr:
  assumes "\<And>x. x \<in> set (concat xss) \<Longrightarrow> f x = Inr (g x)"
  shows "map_err (map_err f) xss = Inr (map (map g) xss)"
proof (rule map_err_Inr)
  fix xs assume xs: "xs \<in> set xss"
  show "map_err f xs = Inr (map g xs)"
  proof (rule map_err_Inr)
    fix x assume "x \<in> set xs"
    with xs have "x \<in> set (concat xss)" by auto
    then show "f x = Inr (g x)" by (rule assms)
  qed
qed

lemma map_err2_Inl:
  assumes "x \<in> set (concat xss)" "f x = Inl e"
  shows "\<exists>x' \<in> set (concat xss). \<exists>e'. f x' = Inl e' \<and> map_err (map_err f) xss = Inl e'"
proof -
  from assms(1) obtain xs where xs: "xs \<in> set xss" "x \<in> set xs" by auto
  from map_err_raises [where f = f, OF xs(2) assms(2)]
  obtain e1 where "map_err f xs = Inl e1" ..
  from map_err_raises [where f = "map_err f", OF xs(1) this]
  obtain e' where e': "map_err (map_err f) xss = Inl e'" ..
  from map_err_Inl [where f = "map_err f", OF this]
  obtain s' where s': "s' \<in> set xss" "map_err f s' = Inl e'" ..
  from map_err_Inl [where f = f, OF this(2)]
  obtain x' where x': "x' \<in> set s'" "f x' = Inl e'" ..
  with s'(1) have "x' \<in> set (concat xss)" by auto
  with x'(2) e' show ?thesis by blast
qed

lemma PAD_not_char: "[c] \<noteq> PAD" and UNK_not_char: "[c] \<noteq> UNK"
  by (simp_all add: PAD_def UNK_def str_def)

section \<open>Lookups with a fallback\<close>

lemma get_absent: "\<not> contains d k \<Longrightarrow> get d k u = u"
  by (simp add: get_def contains_def)

lemma set_order_rt0: "set_order (set_iter rt0)"
  by (simp add: rt0_def set_order_def)

section \<open>Fresh keys get consecutive ids\<close>

lemma update_absent: "k \<notin> fst ` set d \<Longrightarrow> AList.update k v d = d @ [(k, v)]"
  by (induction d) auto

lemma assign_all_fresh:
  "distinct ks \<Longrightarrow> set ks \<inter> fst ` set d = {} \<Longrightarrow>
   assign_all d ks = d @ zip ks (map int [length d ..< length d + length ks])"
proof (induction ks arbitrary: d)
  case Nil
  then show ?case by simp
next
  case (Cons k ks)
  from Cons.prems have k: "k \<notin> fst ` set d" by auto
  then have s: "setitem d k (len d) = d @ [(k, int (length d))]"
    by (simp add: setitem_def len_def update_absent)
  from Cons.prems have "distinct ks" "set ks \<inter> fst ` set (d @ [(k, int (length d))]) = {}"
    by auto
  from Cons.IH [OF this]
  have ih: "assign_all (d @ [(k, int (length d))]) ks =
      (d @ [(k, int (length d))]) @
      zip ks (map int [Suc (length d) ..< Suc (length d) + length ks])"
    by simp
  have u: "[length d ..< length d + length (k # ks)] =
      length d # [Suc (length d) ..< Suc (length d) + length ks]"
    by (simp add: upt_conv_Cons del: upt_Suc)
  show ?case
    unfolding u by (simp add: s ih del: upt_Suc)
qed

lemma assign_all_fresh_keys:
  "distinct ks \<Longrightarrow> set ks \<inter> fst ` set d = {} \<Longrightarrow>
   map fst (assign_all d ks) = map fst d @ ks"
  by (simp add: assign_all_fresh)

lemma assign_all_fresh_values:
  "distinct ks \<Longrightarrow> set ks \<inter> fst ` set d = {} \<Longrightarrow>
   map snd (assign_all d ks) = map snd d @ map int [length d ..< length d + length ks]"
  by (simp add: assign_all_fresh)

lemma map_of_id2label_aux:
  "map_of (foldl (\<lambda>m (t, i). AList.update i t m) m d) =
     map_of m ++ map_of (rev (map (\<lambda>(t, i). (i, t)) d))"
proof (induction d arbitrary: m)
  case Nil
  then show ?case by simp
next
  case (Cons a d)
  obtain t i where a: "a = (t, i)" by (cases a)
  show ?case
    by (simp add: a Cons.IH update_conv' map_add_upd_left fun_eq_iff map_add_def split: option.splits)
qed

lemma map_of_id2label:
  assumes "distinct (map snd d)" "(t, i) \<in> set d"
  shows "map_of (id2label d) i = Some t"
proof -
  have "map fst (rev (map (\<lambda>(t, i). (i, t)) d)) = rev (map snd d)"
    by (simp add: rev_map comp_def case_prod_beta)
  with assms(1) have "distinct (map fst (rev (map (\<lambda>(t, i). (i, t)) d)))"
    by simp
  moreover from assms(2) have "(i, t) \<in> set (rev (map (\<lambda>(t, i). (i, t)) d))"
    by force
  ultimately have "map_of (rev (map (\<lambda>(t, i). (i, t)) d)) i = Some t"
    by (rule map_of_is_SomeI)
  then show ?thesis
    by (simp add: id2label_def map_of_id2label_aux)
qed

lemma map_err_list_all2:
  "list_all2 (\<lambda>y x. f x = Inr y) ys xs \<Longrightarrow> map_err f xs = Inr ys"
  by (induction ys xs rule: list_all2_induct) simp_all

lemma map_of_inj_values:
  assumes "distinct (map snd d)" "map_of d k = Some v" "map_of d k' = Some v"
  shows "k = k'"
proof -
  from assms(2,3) have "(k, v) \<in> set d" "(k', v) \<in> set d"
    by (auto dest: map_of_SomeD)
  moreover from assms(1) have "inj_on snd (set d)"
    by (simp add: distinct_map)
  ultimately have "(k, v) = (k', v)"
    by (intro inj_onD [where f = snd and A = "set d"]) simp_all
  then show ?thesis by simp
qed

lemma get_present: "map_of d k = Some v \<Longrightarrow> get d k u = v"
  by (simp add: get_def)

lemma lower_on_ascii_rt0: "lower_on_ascii (str_lower rt0)"
  by (simp add: rt0_def lower_on_ascii_def)

section \<open>The two maxima of pad\_nested\_sequences\<close>

lemma longest_simps [simp]:
  "longest [] = 0" "longest (s # ss) = max (length s) (longest ss)"
  by (simp_all add: longest_def)

lemma longest_append: "longest (xs @ ys) = max (longest xs) (longest ys)"
  by (induction xs) simp_all

lemma longest_Max: "longest xs = Max (insert 0 (length ` set xs))"
proof (induction xs)
  case Nil
  then show ?case by simp
next
  case (Cons x xs)
  have "Max (insert 0 (length ` set (x # xs))) = Max (insert (length x) (insert 0 (length ` set xs)))"
    by (simp add: insert_commute)
  also have "\<dots> = max (length x) (Max (insert 0 (length ` set xs)))"
    by (rule Max_insert) simp_all
  finally show ?case by (simp add: Cons.IH)
qed

lemma longest_ge: "s \<in> set ss \<Longrightarrow> length s \<le> longest ss"
  by (induction ss) auto

lemma foldl_max_length:
  "foldl (\<lambda>m word. max (length word) m) b sent = max b (longest sent)"
  by (induction sent arbitrary: b) (simp_all add: max.assoc max.left_commute max.commute)

lemma max_lens_eq:
  "max_lens seqs (a, b) = (max a (longest seqs), max b (longest (concat seqs)))"
proof (induction seqs arbitrary: a b)
  case Nil
  then show ?case by simp
next
  case (Cons sent rest)
  have "max_lens (sent # rest) (a, b) =
      max_lens rest (max (length sent) a, max b (longest sent))"
    by (simp add: foldl_max_length)
  also have "\<dots> = (max (max (length sent) a) (longest rest),
      max (max b (longest sent)) (longest (concat rest)))"
    by (rule Cons.IH)
  finally show ?case
    by (simp add: longest_append max.assoc max.left_commute max.commute)
qed

section \<open>The cells of the padded array\<close>

lemma assign_word_ok:
  assumes "\<And>c. c \<in> set word \<Longrightarrow> - (2 ^ 31) \<le> c \<and> c < 2 ^ 31"
  shows "assign_word rt x i j word =
     Inr (x[i := (x ! i)[j := word @ drop (length word) (x ! i ! j)]])"
proof -
  have "map_err (store_int32 rt) word = Inr (map (\<lambda>c. c) word)"
  proof (rule map_err_Inr)
    fix c assume "c \<in> set word"
    from assms [OF this] show "store_int32 rt c = Inr c"
      by (simp add: store_int32_def)
  qed
  then show ?thesis by (simp add: assign_word_def)
qed

lemma fill_sent_ok:
  assumes "\<And>w c. w \<in> set ws \<Longrightarrow> c \<in> set w \<Longrightarrow> - (2 ^ 31) \<le> c \<and> c < 2 ^ 31"
  shows "fill_sent rt x i j ws = Inr (x[i := fill_row (x ! i) j ws])"
  using assms
proof (induction ws arbitrary: x j)
  case Nil
  then show ?case by simp
next
  case (Cons w ws)
  have a: "assign_word rt x i j w =
      Inr (x[i := (x ! i)[j := w @ drop (length w) (x ! i ! j)]])"
  proof (rule assign_word_ok)
    fix c assume "c \<in> set w"
    then show "- (2 ^ 31) \<le> c \<and> c < 2 ^ 31"
      by (intro Cons.prems [where w = w]) simp_all
  qed
  have ih: "fill_sent rt x' i (Suc j) ws = Inr (x'[i := fill_row (x' ! i) (Suc j) ws])" for x'
  proof (rule Cons.IH)
    fix w' c assume "w' \<in> set ws" "c \<in> set w'"
    then show "- (2 ^ 31) \<le> c \<and> c < 2 ^ 31"
      by (intro Cons.prems [where w = w']) simp_all
  qed
  show ?case
  proof (cases "i < length x")
    case True
    then show ?thesis by (simp add: a ih)
  next
    case False
    then have "length x \<le> i" by simp
    then show ?thesis by (simp add: a ih list_update_beyond)
  qed
qed

lemma fill_ok:
  assumes "\<And>c. c \<in> set (concat (concat ss)) \<Longrightarrow> - (2 ^ 31) \<le> c \<and> c < 2 ^ 31"
  shows "fill rt x i ss = Inr (fill_all x i ss)"
  using assms
proof (induction ss arbitrary: x i)
  case Nil
  then show ?case by simp
next
  case (Cons s ss)
  have "fill_sent rt x i 0 s = Inr (x[i := fill_row (x ! i) 0 s])"
  proof (rule fill_sent_ok)
    fix w c assume "w \<in> set s" "c \<in> set w"
    then have "c \<in> set (concat (concat (s # ss)))" by auto
    then show "- (2 ^ 31) \<le> c \<and> c < 2 ^ 31" by (rule Cons.prems)
  qed
  moreover have "fill rt x' (Suc i) ss = Inr (fill_all x' (Suc i) ss)" for x'
  proof (rule Cons.IH)
    fix c assume "c \<in> set (concat (concat ss))"
    then have "c \<in> set (concat (concat (s # ss)))" by auto
    then show "- (2 ^ 31) \<le> c \<and> c < 2 ^ 31" by (rule Cons.prems)
  qed
  ultimately show ?case by simp
qed

lemma length_fill_row [simp]: "length (fill_row row j ws) = length row"
  by (induction ws arbitrary: row j) simp_all

lemma nth_fill_row:
  "k < length row \<Longrightarrow>
   fill_row row j ws ! k =
     (if j \<le> k \<and> k < j + length ws
      then ws ! (k - j) @ drop (length (ws ! (k - j))) (row ! k)
      else row ! k)"
proof (induction ws arbitrary: row j)
  case Nil
  then show ?case by auto
next
  case (Cons w ws)
  show ?case
  proof (cases "k = j")
    case True
    with Cons show ?thesis by simp
  next
    case False
    with Cons show ?thesis
      by (auto simp add: nth_Cons' Suc_diff_Suc not_less less_Suc_eq_le)
  qed
qed

lemma length_fill_all [simp]: "length (fill_all x i ss) = length x"
  by (induction ss arbitrary: x i) simp_all

lemma nth_fill_all:
  "k < length x \<Longrightarrow>
   fill_all x i ss ! k =
     (if i \<le> k \<and> k < i + length ss then fill_row (x ! k) 0 (ss ! (k - i)) else x ! k)"
proof (induction ss arbitrary: x i)
  case Nil
  then show ?case by auto
next
  case (Cons s ss)
  show ?case
  proof (cases "k = i")
    case True
    with Cons show ?thesis by simp
  next
    case False
    with Cons show ?thesis
      by (auto simp add: nth_Cons' Suc_diff_Suc not_less less_Suc_eq_le)
  qed
qed

lemma pad_nested_ok:
  assumes "\<And>c. c \<in> set (concat (concat seqs)) \<Longrightarrow> - (2 ^ 31) \<le> c \<and> c < 2 ^ 31"
  shows "pad_nested_sequences rt seqs =
     Inr (fill_all (zeros (length seqs) (longest seqs) (longest (concat seqs))) 0 seqs)"
proof -
  have "fill rt x 0 seqs = Inr (fill_all x 0 seqs)" for x
    by (rule fill_ok) (rule assms)
  then show ?thesis
    by (simp add: pad_nested_sequences_def max_lens_eq)
qed

lemma padded_row:
  assumes "i < length seqs"
  shows "fill_all (zeros (length seqs) (longest seqs) (longest (concat seqs))) 0 seqs ! i =
     fill_row (replicate (longest seqs) (replicate (longest (concat seqs)) 0)) 0 (seqs ! i)"
  using assms by (simp add: zeros_def nth_fill_all)

lemma padded_cell:
  assumes "i < length seqs" "j < longest seqs"
  shows "fill_all (zeros (length seqs) (longest seqs) (longest (concat seqs))) 0 seqs ! i ! j =
     (if j < length (seqs ! i)
      then seqs ! i ! j @ replicate (longest (concat seqs) - length (seqs ! i ! j)) 0
      else replicate (longest (concat seqs)) 0)"
  using assms by (simp add: padded_row nth_fill_row)

lemma nth_nth_concat:
  "i < length xss \<Longrightarrow> j < length (xss ! i) \<Longrightarrow> xss ! i ! j \<in> set (concat xss)"
  by (auto intro!: bexI [where x = "xss ! i"])

lemma mem_concat: "ys \<in> set yss \<Longrightarrow> y \<in> set ys \<Longrightarrow> y \<in> set (concat yss)"
  by auto

section \<open>Padding and one-hot vectors\<close>

lemma filter_eq_upt: "filter (\<lambda>i. i = a) [0..<n] = (if a < n then [a] else [])"
  by (induction n) auto

lemma length_one_hot [simp]: "length (one_hot n k) = n"
  by (simp add: one_hot_def)

lemma nth_one_hot: "m < n \<Longrightarrow> one_hot n k ! m = (if int m = k then 1 else 0)"
  by (simp add: one_hot_def)

lemma count_one_hot:
  assumes "0 \<le> k" "k < int n"
  shows "count_list (one_hot n k) 1 = 1"
proof -
  have "filter ((=) 1 \<circ> (\<lambda>i. if int i = k then 1 else (0::int))) [0..<n]
      = filter (\<lambda>i. i = nat k) [0..<n]"
    using assms(1) by (intro filter_cong) auto
  with assms show ?thesis
    by (simp add: count_list_eq_length_filter one_hot_def filter_map filter_eq_upt)
qed

lemma length_pad_sequences [simp]: "length (pad_sequences seqs) = length seqs"
  by (simp add: pad_sequences_def)

lemma pad_sequences_row:
  "i < length seqs \<Longrightarrow>
   pad_sequences seqs ! i = seqs ! i @ replicate (longest seqs - length (seqs ! i)) 0"
  by (simp add: pad_sequences_def)

lemma longest_pos: "0 < longest ss \<Longrightarrow> concat ss \<noteq> []"
  by (induction ss) (auto simp: max_def split: if_splits)

lemma longest_lengths: "map length xs = map length ys \<Longrightarrow> longest xs = longest ys"
proof (induction xs arbitrary: ys)
  case Nil
  then show ?case by simp
next
  case (Cons x xs)
  then obtain y ys' where "ys = y # ys'" by (cases ys) auto
  with Cons show ?case by simp
qed

section \<open>Label lookup in transform\<close>

lemma list_all2_mapI: "(\<And>x. x \<in> set xs \<Longrightarrow> P x (f x)) \<Longrightarrow> list_all2 P xs (map f xs)"
  by (induction xs) auto

lemma labels_covered:
  "(\<And>t. t \<in> set (concat y) \<Longrightarrow> contains d t) \<Longrightarrow>
   \<exists>ids. map_err (map_err (getitem d)) y = Inr ids
       \<and> list_all2 (list_all2 (\<lambda>t i. map_of d t = Some i)) y ids"
proof -
  assume cov: "\<And>t. t \<in> set (concat y) \<Longrightarrow> contains d t"
  let ?g = "\<lambda>t. case map_of d t of None \<Rightarrow> 0 | Some i \<Rightarrow> i"
  have one: "getitem d t = Inr (?g t)" if "t \<in> set (concat y)" for t
    using cov [OF that] by (auto simp: getitem_def contains_def)
  have two: "map_err (getitem d) sent = Inr (map ?g sent)" if "sent \<in> set y" for sent
  proof (rule map_err_Inr)
    fix t assume "t \<in> set sent"
    with that have "t \<in> set (concat y)" by auto
    then show "getitem d t = Inr (?g t)" by (rule one)
  qed
  have eq: "map_err (map_err (getitem d)) y = Inr (map (map ?g) y)"
    by (rule map_err_Inr) (rule two)
  have "list_all2 (list_all2 (\<lambda>t i. map_of d t = Some i)) y (map (map ?g) y)"
  proof (intro list_all2_mapI)
    fix sent t assume "sent \<in> set y" "t \<in> set sent"
    then have "t \<in> set (concat y)" by auto
    from cov [OF this] show "map_of d t = Some (?g t)"
      by (auto simp: contains_def)
  qed
  with eq show ?thesis by blast
qed

lemma labels_uncovered:
  assumes "t \<in> set (concat y)" "\<not> contains d t"
  shows "\<exists>t' \<in> set (concat y). \<not> contains d t' \<and>
           map_err (map_err (getitem d)) y = Inl (KeyError t')"
proof -
  from assms obtain sent where sent: "sent \<in> set y" "t \<in> set sent" by auto
  have "getitem d t = Inl (KeyError t)"
    using assms(2) by (simp add: getitem_def contains_def)
  from map_err_raises [where f = "getitem d", OF sent(2) this]
  obtain e1 where "map_err (getitem d) sent = Inl e1" ..
  from map_err_raises [where f = "map_err (getitem d)", OF sent(1) this]
  obtain e where e: "map_err (map_err (getitem d)) y = Inl e" ..
  from map_err_Inl [where f = "map_err (getitem d)", OF this]
  obtain s' where s': "s' \<in> set y" "map_err (getitem d) s' = Inl e" ..
  from map_err_Inl [where f = "getitem d", OF this(2)]
  obtain t' where t': "t' \<in> set s'" "getitem d t' = Inl e" ..
  from t'(2) have "e = KeyError t'" "\<not> contains d t'"
    by (auto simp: getitem_def contains_def split: option.splits)
  with e s'(1) t'(1) show ?thesis by auto
qed

section \<open>Vocabulary ids assigned by fit\<close>

text \<open>
  C1.  The claim: ids are handed out in strictly increasing order, a token keeps the
  id it was first given, and a normalised word gets the next id only when it is not
  yet in the word vocabulary.  The word loop of \<open>fit\<close> assigns without looking
  whether the normalised word is already a key (the character loop does look).  With
  \<open>lowercase\<close>, the corpus \<open>[["A", "a"]]\<close> gives \<open>"a"\<close> the id 2 and then, in the same
  call and in either iteration order, the id 3; the next new word \<open>"b"\<close> is given
  3 as well, so two words share an id and no word has id 2.
\<close>

theorem fit_reassigns_word_id:
  "map_of (word_dic (fit_words rt0 (init True True True []) [str ''A''])) (str ''a'') = Some 2
   \<and> map_of (word_dic (fit_words rt0 (init True True True []) [str ''A'', str ''a'']))
         (str ''a'') = Some 3
   \<and> map_of (word_dic (fit_words rt0 (init True True True []) [str ''a''])) (str ''a'') = Some 2
   \<and> map_of (word_dic (fit_words rt0 (init True True True []) [str ''a'', str ''A'']))
         (str ''a'') = Some 3
   \<and> word_dic (fst (fit rt0 [[str ''A'', str ''a'', str ''b'']]
                        (Some [[str ''O'', str ''O'', str ''O'']]) (init True True True [])))
       = [(PAD, 0), (UNK, 1), (str ''a'', 3), (str ''b'', 3)]"
  by (simp add: ev)

section \<open>Before fit\<close>

text \<open>
  Counterexample to C2 as stated: on a preprocessor that was never fitted,
  \<open>transform\<close> and \<open>inverse_transform\<close> return; nothing is raised.
\<close>

theorem transform_before_fit_returns:
  "transform rt0 [[str ''a'']] None (init True True True []) = Inr (([[1]], Some [[[1]]]), None)
   \<and> inverse_transform (init True True True []) [[0]] = Inr [[PAD]]"
  by (simp add: ev inverse_transform_def id2label_def)

text \<open>
  C2, amended.  Before \<open>fit\<close>, \<open>transform\<close> of a corpus without labels returns for
  every corpus: every character is encoded as 1 and every word as 1, or as 0 when its
  normalised form is the string \<open><PAD>\<close>.  \<open>inverse_transform\<close> returns \<open><PAD>\<close> for
  the id 0 and raises \<open>KeyError\<close> for any other id.
\<close>

theorem transform_before_fit:
  "transform rt X None (init lc nn cf vi) =
     Inr ((map (map (\<lambda>w. if norm_word rt (init lc nn cf vi) w = PAD then 0 else 1)) X,
           if cf then Some (map (map (map (\<lambda>c. 1))) X) else None), None)
   \<and> ((\<forall>i \<in> set (concat docs). i = 0) \<longrightarrow>
        inverse_transform (init lc nn cf vi) docs = Inr (map (map (\<lambda>i. PAD)) docs))
   \<and> ((\<exists>i \<in> set (concat docs). i \<noteq> 0) \<longrightarrow>
        (\<exists>i \<in> set (concat docs). i \<noteq> 0
           \<and> inverse_transform (init lc nn cf vi) docs = Inl (KeyErrorId i)))"
proof (intro conjI impI)
  let ?p = "init lc nn cf vi"
  have w: "get [(PAD, 0), (UNK, 1)] k 1 = (if k = PAD then 0 else 1)" for k
    by (simp add: get_def)
  have c: "get [(PAD, 0), (UNK, 1)] [c] 1 = 1" for c
    using PAD_not_char [of c] by (auto simp add: get_def)
  show "transform rt X None ?p =
     Inr ((map (map (\<lambda>w. if norm_word rt ?p w = PAD then 0 else 1)) X,
           if cf then Some (map (map (map (\<lambda>c. 1))) X) else None), None)"
    by (simp add: transform_None_ok [OF init_unk(2) init_unk(1)] w PAD_not_char)
  let ?f = "\<lambda>t. case map_of (id2label [(PAD, 0)]) t of
                    None \<Rightarrow> Inl (KeyErrorId t) | Some l \<Rightarrow> Inr l"
  have f: "?f t = (if t = 0 then Inr PAD else Inl (KeyErrorId t))" for t
    by (simp add: id2label_def)
  {
    assume "\<forall>i \<in> set (concat docs). i = 0"
    then have "map_err (map_err ?f) docs = Inr (map (map (\<lambda>i. PAD)) docs)"
      by (intro map_err2_Inr) (auto simp add: f)
    then show "inverse_transform ?p docs = Inr (map (map (\<lambda>i. PAD)) docs)"
      by (simp add: inverse_transform_def)
  next
    assume "\<exists>i \<in> set (concat docs). i \<noteq> 0"
    then obtain i where i: "i \<in> set (concat docs)" "i \<noteq> 0"
      by blast
    from i(2) have "?f i = Inl (KeyErrorId i)"
      by (simp add: f)
    from map_err2_Inl [where f = ?f, OF i(1) this]
    obtain i' e' where "i' \<in> set (concat docs)" "?f i' = Inl e'"
      "map_err (map_err ?f) docs = Inl e'" by blast
    then show "\<exists>i \<in> set (concat docs). i \<noteq> 0
           \<and> inverse_transform ?p docs = Inl (KeyErrorId i)"
      by (auto simp: f inverse_transform_def split: if_splits)
  }
qed

theorem transform_before_fit_witness:
  "inverse_transform (init True True True []) [[0, 0], [0]] = Inr [[PAD, PAD], [PAD]]
   \<and> (\<exists>i. inverse_transform (init True True True []) [[0, 1]] = Inl (KeyErrorId i))"
proof -
  have a: "\<forall>i \<in> set (concat [[0, 0], [0::int]]). i = 0" by simp
  have b: "\<exists>i \<in> set (concat [[0, 1::int]]). i \<noteq> 0" by simp
  from a transform_before_fit [where docs = "[[0, 0], [0]]" and lc = True and nn = True
      and cf = True and vi = "[]"]
  have 1: "inverse_transform (init True True True []) [[0, 0], [0]] = Inr [[PAD, PAD], [PAD]]"
    by simp
  from b transform_before_fit [where docs = "[[0, 1]]" and lc = True and nn = True
      and cf = True and vi = "[]"]
  have 2: "\<exists>i. inverse_transform (init True True True []) [[0, 1]] = Inl (KeyErrorId i)"
    by blast
  from 1 2 show ?thesis by (rule conjI)
qed

section \<open>Nested padding\<close>

text \<open>
  C3.  For every batch of nested character-id sequences, \<open>pad_nested_sequences\<close>
  returns an array of shape \<open>[batchSize, maxSentenceLen, maxWordLen]\<close>, with
  \<open>maxSentenceLen\<close> the length of the longest sentence and \<open>maxWordLen\<close> the length
  of the longest word of the whole batch (both 0 when there is none); position
  \<open>[i, j, k]\<close> holds the \<open>k\<close>-th id of word \<open>j\<close> of sentence \<open>i\<close> when there is one,
  and 0 otherwise.  A character id is an id of a character vocabulary: it is below
  the size of the vocabulary, which the number of Unicode code points bounds, so it
  lies in the \<open>int32\<close> range of the array; this is the hypothesis.
\<close>

theorem pad_nested_sequences_cells:
  assumes "\<forall>c \<in> set (concat (concat seqs)). - (2 ^ 31) \<le> c \<and> c < 2 ^ 31"
  shows "\<exists>x. pad_nested_sequences rt seqs = Inr x
     \<and> length x = length seqs
     \<and> (\<forall>i < length seqs.
          length (x ! i) = Max (insert 0 (length ` set seqs))
        \<and> (\<forall>j < Max (insert 0 (length ` set seqs)).
               length (x ! i ! j) = Max (insert 0 (length ` set (concat seqs)))
             \<and> (\<forall>k < Max (insert 0 (length ` set (concat seqs))).
                    x ! i ! j ! k =
                      (if j < length (seqs ! i) \<and> k < length (seqs ! i ! j)
                       then seqs ! i ! j ! k else 0))))"
proof -
  let ?ms = "longest seqs" and ?mw = "longest (concat seqs)"
  let ?x = "fill_all (zeros (length seqs) ?ms ?mw) 0 seqs"
  have ret: "pad_nested_sequences rt seqs = Inr ?x"
    by (rule pad_nested_ok) (use assms in blast)
  have shape: "length ?x = length seqs"
    by (simp add: zeros_def)
  have rows: "length (?x ! i) = Max (insert 0 (length ` set seqs))
        \<and> (\<forall>j < Max (insert 0 (length ` set seqs)).
               length (?x ! i ! j) = Max (insert 0 (length ` set (concat seqs)))
             \<and> (\<forall>k < Max (insert 0 (length ` set (concat seqs))).
                    ?x ! i ! j ! k =
                      (if j < length (seqs ! i) \<and> k < length (seqs ! i ! j)
                       then seqs ! i ! j ! k else 0)))" if i: "i < length seqs" for i
  proof (intro conjI allI impI)
    show "length (?x ! i) = Max (insert 0 (length ` set seqs))"
      unfolding longest_Max [symmetric] by (simp add: padded_row [OF i])
    fix j assume "j < Max (insert 0 (length ` set seqs))"
    then have j: "j < ?ms" by (simp only: longest_Max)
    note cell = padded_cell [OF i j]
    have len: "length (seqs ! i ! j) \<le> ?mw" if "j < length (seqs ! i)"
    proof (rule longest_ge)
      from i that show "seqs ! i ! j \<in> set (concat seqs)" by (rule nth_nth_concat)
    qed
    show "length (?x ! i ! j) = Max (insert 0 (length ` set (concat seqs)))"
      unfolding longest_Max [symmetric] using len by (simp add: cell)
    fix k assume "k < Max (insert 0 (length ` set (concat seqs)))"
    then have k: "k < ?mw" by (simp only: longest_Max)
    show "?x ! i ! j ! k =
        (if j < length (seqs ! i) \<and> k < length (seqs ! i ! j) then seqs ! i ! j ! k else 0)"
    proof (cases "j < length (seqs ! i)")
      case False
      with k show ?thesis by (simp add: cell)
    next
      case True
      with k show ?thesis by (simp add: cell nth_append)
    qed
  qed
  from ret shape rows show ?thesis by blast
qed

theorem pad_nested_sequences_cells_witness:
  "\<exists>x. pad_nested_sequences rt0 [[[1, 2], [3]], [[4, 5, 6]]] = Inr x
     \<and> length x = 2
     \<and> x ! 0 ! 1 ! 0 = 3
     \<and> x ! 0 ! 1 ! 2 = 0
     \<and> x ! 1 ! 1 ! 2 = 0"
proof -
  let ?s = "[[[1, 2], [3]], [[4, 5, 6::int]]]"
  have r: "\<forall>c \<in> set (concat (concat ?s)). - (2 ^ 31) \<le> c \<and> c < 2 ^ 31"
    by simp
  have ms: "Max (insert 0 (length ` set ?s)) = 2"
    and mw: "Max (insert 0 (length ` set (concat ?s))) = 3"
    by simp_all
  from pad_nested_sequences_cells [OF r, unfolded ms mw, of rt0]
  obtain x where ret: "pad_nested_sequences rt0 ?s = Inr x"
    and len: "length x = length ?s"
    and c: "\<forall>i < length ?s.
          length (x ! i) = 2
        \<and> (\<forall>j < 2.
               length (x ! i ! j) = 3
             \<and> (\<forall>k < 3.
                    x ! i ! j ! k =
                      (if j < length (?s ! i) \<and> k < length (?s ! i ! j)
                       then ?s ! i ! j ! k else 0)))"
    by blast
  note ex = numeral_2_eq_2 numeral_3_eq_3 All_less_Suc
  from len have "length x = 2" by simp
  moreover from c have "x ! 0 ! 1 ! 0 = 3" by (simp add: ex)
  moreover from c have "x ! 0 ! 1 ! 2 = 0" by (simp add: ex)
  moreover from c have "x ! 1 ! 1 ! 2 = 0" by (simp add: ex)
  ultimately show ?thesis using ret by blast
qed

section \<open>Batches without character ids\<close>

text \<open>
  C4.  The claim: \<open>DynamicPreprocessor.transform\<close> accepts a batch that has word ids
  only.  Without \<open>char_feature\<close> the static \<open>transform\<close> returns the one-element
  list \<open>[words]\<close>; \<open>DynamicPreprocessor.transform\<close> unpacks two elements and raises
  \<open>ValueError\<close> on it.
\<close>

theorem dynamic_transform_needs_chars:
  "transform rt0 [[str ''a'', str ''b''], [str ''c'']] None
       (fst (fit rt0 [[str ''a'', str ''b''], [str ''c'']]
               (Some [[str ''O'', str ''O''], [str ''O'']]) (init True True False [])))
     = Inr (([[2, 3], [4]], None), None)
   \<and> dynamic_transform rt0 \<lparr>n_labels = 2\<rparr> ([[2, 3], [4]], None) None = Inl ValueError"
  by (simp add: ev)

section \<open>Unknown words and characters\<close>

text \<open>
  Counterexample to C5 as stated: without \<open>lowercase\<close>, the word \<open><PAD>\<close> was not
  in the corpus given to \<open>fit\<close>, and \<open>transform\<close> encodes it as 0, the id under the
  reserved key of the same name in \<open>word_dic\<close>, not as the \<open>UNK\<close> id 1.
\<close>

theorem transform_reserved_word:
  "transform rt0 [[str ''<PAD>'']] None
       (fst (fit rt0 [[str ''a'']] (Some [[str ''O'']]) (init False True True [])))
     = Inr (([[0]], Some [[[1, 1, 1, 1, 1]]]), None)"
  by (simp add: ev)

text \<open>
  C5, amended.  On a preprocessor fitted from a fresh one, \<open>transform\<close> of a corpus
  without labels never raises: each word is looked up by its normalised form with
  the id stored under \<open><UNK>\<close> as fallback, each character likewise.  A character
  that occurs in no fitted word is encoded as 1.  A word whose normalised form is
  not the normalised form of a fitted word, and is not the reserved string
  \<open><PAD>\<close>, is encoded as the id stored under \<open><UNK>\<close>; that id is 1 when no fitted
  word normalises to \<open><UNK>\<close>.
\<close>

theorem transform_unseen:
  assumes "set_order (set_iter rt)" and "p = fst (fit rt X0 (Some y0) (init lc nn cf vi))"
  shows "\<exists>uw. map_of (word_dic p) UNK = Some uw
     \<and> transform rt X None p =
         Inr ((map (map (\<lambda>w. get (word_dic p) (norm_word rt p w) uw)) X,
               if cf then Some (map (map (map (\<lambda>c. get (char_dic p) [c] 1))) X) else None),
              None)
     \<and> (UNK \<notin> norm_word rt p ` (set (concat X0) \<union> set vi) \<longrightarrow> uw = 1)
     \<and> (\<forall>w. norm_word rt p w \<notin> norm_word rt p ` (set (concat X0) \<union> set vi)
              \<and> norm_word rt p w \<noteq> PAD
            \<longrightarrow> get (word_dic p) (norm_word rt p w) uw = uw)
     \<and> (\<forall>c. c \<notin> \<Union>(set ` (set (concat X0) \<union> set vi))
            \<longrightarrow> get (char_dic p) [c] 1 = 1)"
proof -
  let ?p0 = "init lc nn cf vi"
  let ?ws = "set_iter rt (concat X0 @ vi)"
  have ws: "set ?ws = set (concat X0) \<union> set vi"
    using assms(1) by (simp add: set_order_def)
  have n: "norm_word rt p = norm_word rt ?p0"
    by (rule ext, rule norm_word_cong) (simp_all add: assms(2) fit_fields)
  have wd: "word_dic p = assign_all [(PAD, 0), (UNK, 1)] (map (norm_word rt ?p0) ?ws)"
    by (simp add: assms(2) fit_fields)
  have wkeys: "fst ` set (word_dic p) = {PAD, UNK} \<union> norm_word rt p ` (set (concat X0) \<union> set vi)"
    by (simp add: wd keys_assign_all ws n)
  have ckeys: "fst ` set (char_dic p) \<subseteq> {PAD, UNK} \<union> (\<lambda>c. [c]) ` \<Union>(set ` (set (concat X0) \<union> set vi))"
    by (auto simp add: assms(2) fit_fields keys_foldl_fit_chars ws)
  obtain uw where uw: "map_of (word_dic p) UNK = Some uw"
    using fit_word_unk [OF init_unk(3)] assms(2) by blast
  have uc: "map_of (char_dic p) UNK = Some 1"
    unfolding assms(2) by (rule fit_char_unk) (rule init_unk)
  have cf: "char_feature p = cf"
    by (simp add: assms(2) fit_fields)
  have 1: "transform rt X None p =
         Inr ((map (map (\<lambda>w. get (word_dic p) (norm_word rt p w) uw)) X,
               if cf then Some (map (map (map (\<lambda>c. get (char_dic p) [c] 1))) X) else None),
              None)"
    using transform_None_ok [OF uw uc, of rt X] by (simp add: cf)
  have 2: "uw = 1" if "UNK \<notin> norm_word rt p ` (set (concat X0) \<union> set vi)"
  proof -
    from that have "UNK \<notin> set (map (norm_word rt ?p0) ?ws)"
      by (simp add: ws n)
    from map_of_assign_all_other [OF this, of "[(PAD, 0), (UNK, 1)]"] uw
    show ?thesis using UNK_neq_PAD by (simp add: wd)
  qed
  have 3: "get (word_dic p) (norm_word rt p w) uw = uw"
    if "norm_word rt p w \<notin> norm_word rt p ` (set (concat X0) \<union> set vi)
        \<and> norm_word rt p w \<noteq> PAD" for w
  proof (cases "norm_word rt p w = UNK")
    case True
    then show ?thesis by (simp add: get_def uw)
  next
    case False
    with that have "\<not> contains (word_dic p) (norm_word rt p w)"
      unfolding contains_keys wkeys by blast
    then show ?thesis by (rule get_absent)
  qed
  have 4: "get (char_dic p) [c] 1 = 1"
    if "c \<notin> \<Union>(set ` (set (concat X0) \<union> set vi))" for c
  proof -
    from that ckeys have "\<not> contains (char_dic p) [c]"
      unfolding contains_keys using PAD_not_char [of c] UNK_not_char [of c] by blast
    then show ?thesis by (rule get_absent)
  qed
  from uw 1 2 3 4 show ?thesis by blast
qed

theorem transform_unseen_witness:
  "transform rt0 [[str ''zz'']] None
       (fst (fit rt0 [[str ''a'']] (Some [[str ''O'']]) (init True True True [])))
     = Inr (([[1]], Some [[[1, 1]]]), None)"
proof -
  let ?p = "fst (fit rt0 [[str ''a'']] (Some [[str ''O'']]) (init True True True []))"
  let ?seen = "set (concat [[str ''a'']]) \<union> set []"
  from transform_unseen [OF set_order_rt0 refl, where X = "[[str ''zz'']]"
      and ?X0.0 = "[[str ''a'']]" and ?y0.0 = "[[str ''O'']]" and lc = True and nn = True
      and cf = True and vi = "[]"]
  obtain uw where
    tr: "transform rt0 [[str ''zz'']] None ?p =
         Inr ((map (map (\<lambda>w. get (word_dic ?p) (norm_word rt0 ?p w) uw)) [[str ''zz'']],
               if True then Some (map (map (map (\<lambda>c. get (char_dic ?p) [c] 1))) [[str ''zz'']])
               else None), None)"
    and u: "UNK \<notin> norm_word rt0 ?p ` ?seen \<longrightarrow> uw = 1"
    and w: "\<forall>w. norm_word rt0 ?p w \<notin> norm_word rt0 ?p ` ?seen \<and> norm_word rt0 ?p w \<noteq> PAD
            \<longrightarrow> get (word_dic ?p) (norm_word rt0 ?p w) uw = uw"
    and c: "\<forall>c. c \<notin> \<Union>(set ` ?seen) \<longrightarrow> get (char_dic ?p) [c] 1 = 1"
    by blast
  have "UNK \<notin> norm_word rt0 ?p ` ?seen"
    by (simp add: ev)
  with u have uw: "uw = 1" by blast
  have "norm_word rt0 ?p (str ''zz'') \<notin> norm_word rt0 ?p ` ?seen
      \<and> norm_word rt0 ?p (str ''zz'') \<noteq> PAD"
    by (simp add: ev)
  with w have wz: "get (word_dic ?p) (norm_word rt0 ?p (str ''zz'')) uw = uw" by blast
  have "of_char CHR ''z'' \<notin> \<Union>(set ` ?seen)"
    by (simp add: str_simps)
  with c have cz: "get (char_dic ?p) [of_char CHR ''z''] 1 = 1" by blast
  have "map (map (map (\<lambda>c. get (char_dic ?p) [c] 1))) [[str ''zz'']] = [[[1, 1]]]"
    using cz by (simp add: str_def)
  with tr wz uw show ?thesis by simp
qed

section \<open>Labels without an entry\<close>

text \<open>
  C6.  On a fitted preprocessor, \<open>transform\<close> with a label corpus raises \<open>KeyError\<close>
  for a label that is not a key of \<open>label_dic\<close> (there is no fallback id), and when
  every label is a key it returns, with each label replaced by its id.
\<close>

theorem transform_label_lookup:
  assumes "p = fst (fit rt X0 (Some y0) (init lc nn cf vi))"
  shows "((\<forall>t \<in> set (concat y). contains (label_dic p) t) \<longrightarrow>
            (\<exists>f ids. transform rt X (Some y) p = Inr (f, Some ids)
               \<and> list_all2 (list_all2 (\<lambda>t i. map_of (label_dic p) t = Some i)) y ids))
       \<and> ((\<exists>t \<in> set (concat y). \<not> contains (label_dic p) t) \<longrightarrow>
            (\<exists>t \<in> set (concat y). \<not> contains (label_dic p) t
               \<and> transform rt X (Some y) p = Inl (KeyError t)))"
proof -
  obtain uw where uw: "map_of (word_dic p) UNK = Some uw"
    using fit_word_unk [OF init_unk(3)] assms by blast
  have uc: "map_of (char_dic p) UNK = Some 1"
    unfolding assms by (rule fit_char_unk) (rule init_unk)
  note tr = transform_Some_ok [OF uw uc, of rt X y]
  show ?thesis
  proof (intro conjI impI)
    assume "\<forall>t \<in> set (concat y). contains (label_dic p) t"
    then obtain ids where "map_err (map_err (getitem (label_dic p))) y = Inr ids"
      "list_all2 (list_all2 (\<lambda>t i. map_of (label_dic p) t = Some i)) y ids"
      using labels_covered [of y "label_dic p"] by blast
    then show "\<exists>f ids. transform rt X (Some y) p = Inr (f, Some ids)
               \<and> list_all2 (list_all2 (\<lambda>t i. map_of (label_dic p) t = Some i)) y ids"
      by (simp add: tr)
  next
    assume "\<exists>t \<in> set (concat y). \<not> contains (label_dic p) t"
    then obtain t' where "t' \<in> set (concat y)" "\<not> contains (label_dic p) t'"
      "map_err (map_err (getitem (label_dic p))) y = Inl (KeyError t')"
      using labels_uncovered [of _ y "label_dic p"] by blast
    then show "\<exists>t \<in> set (concat y). \<not> contains (label_dic p) t
               \<and> transform rt X (Some y) p = Inl (KeyError t)"
      by (auto simp: tr)
  qed
qed

theorem transform_label_lookup_witness:
  "(\<exists>f ids. transform rt0 [[str ''x'']] (Some [[str ''O'', str ''O'']])
        (fst (fit rt0 [[str ''x'']] (Some [[str ''O'']]) (init True True True [])))
       = Inr (f, Some ids))
   \<and> (\<exists>t. transform rt0 [[str ''x'']] (Some [[str ''O'', str ''B'']])
        (fst (fit rt0 [[str ''x'']] (Some [[str ''O'']]) (init True True True [])))
       = Inl (KeyError t))"
proof -
  let ?p = "fst (fit rt0 [[str ''x'']] (Some [[str ''O'']]) (init True True True []))"
  have cov: "\<forall>t \<in> set (concat [[str ''O'', str ''O'']]). contains (label_dic ?p) t"
    by (simp add: ev)
  have unc: "\<exists>t \<in> set (concat [[str ''O'', str ''B'']]). \<not> contains (label_dic ?p) t"
    by (simp add: ev)
  from cov
    transform_label_lookup [OF refl, where rt = rt0 and y = "[[str ''O'', str ''O'']]"
      and ?X0.0 = "[[str ''x'']]" and ?y0.0 = "[[str ''O'']]" and lc = True and nn = True
      and cf = True and vi = "[]" and X = "[[str ''x'']]"]
  have a: "\<exists>f ids. transform rt0 [[str ''x'']] (Some [[str ''O'', str ''O'']]) ?p
       = Inr (f, Some ids)" by blast
  from unc
    transform_label_lookup [OF refl, where rt = rt0 and y = "[[str ''O'', str ''B'']]"
      and ?X0.0 = "[[str ''x'']]" and ?y0.0 = "[[str ''O'']]" and lc = True and nn = True
      and cf = True and vi = "[]" and X = "[[str ''x'']]"]
  have b: "\<exists>t. transform rt0 [[str ''x'']] (Some [[str ''O'', str ''B'']]) ?p
       = Inl (KeyError t)" by blast
  from a b show ?thesis by (rule conjI)
qed

section \<open>Labels there and back\<close>

text \<open>
  Where the reserved string \<open><PAD>\<close> is not among the labels, every label met by
  \<open>fit\<close> on a fresh preprocessor is new, the ids are \<open>1, 2, \<dots>\<close> in the order of
  iteration, and \<open>inverse_transform\<close> undoes \<open>transform\<close>.
\<close>

lemma label_round_trip:
  assumes "set_order (set_iter rt)" and "PAD \<notin> set (concat L)"
    and "p = fst (fit rt X (Some L) (init lc nn cf vi))"
  shows "\<exists>f ids. transform rt X' (Some L) p = Inr (f, Some ids)
     \<and> inverse_transform p ids = Inr L"
proof -
  let ?ts = "set_iter rt (concat L)"
  let ?d = "label_dic p"
  let ?inv = "\<lambda>i. case map_of (id2label ?d) i of
                     None \<Rightarrow> Inl (KeyErrorId i) | Some l \<Rightarrow> Inr l"
  have ts: "distinct ?ts" "set ?ts = set (concat L)"
    using assms(1) by (simp_all add: set_order_def)
  have d: "?d = assign_all [(PAD, 0)] ?ts"
    by (simp add: assms(3) fit_label_dic)
  have fresh: "set ?ts \<inter> fst ` set [(PAD, 0::int)] = {}"
    using assms(2) by (simp add: ts)
  have vals: "distinct (map snd ?d)"
    unfolding d assign_all_fresh_values [OF ts(1) fresh]
    by (auto simp add: distinct_map inj_on_def)
  have cov: "contains ?d t" if "t \<in> set (concat L)" for t
    using that by (simp add: contains_keys d keys_assign_all ts)
  from labels_covered [of L ?d, OF cov]
  obtain ids where ids: "map_err (map_err (getitem ?d)) L = Inr ids"
    "list_all2 (list_all2 (\<lambda>t i. map_of ?d t = Some i)) L ids" by blast
  obtain uw where uw: "map_of (word_dic p) UNK = Some uw"
    using fit_word_unk [OF init_unk(3)] assms(3) by blast
  have uc: "map_of (char_dic p) UNK = Some 1"
    unfolding assms(3) by (rule fit_char_unk) (rule init_unk)
  from transform_Some_ok [OF uw uc, of rt X' L] ids(1)
  obtain f where tr: "transform rt X' (Some L) p = Inr (f, Some ids)"
    by simp
  have inv_ok: "?inv i = Inr t" if "map_of ?d t = Some i" for t i
    using map_of_id2label [OF vals map_of_SomeD [OF that]] by simp
  have "list_all2 (list_all2 (\<lambda>t i. ?inv i = Inr t)) L ids"
    by (rule list_all2_mono [OF ids(2)], erule list_all2_mono) (rule inv_ok)
  then have "list_all2 (\<lambda>ys xs. map_err ?inv xs = Inr ys) L ids"
    by (rule list_all2_mono) (rule map_err_list_all2)
  then have "map_err (map_err ?inv) ids = Inr L"
    by (rule map_err_list_all2)
  then have "inverse_transform p ids = Inr L"
    by (simp add: inverse_transform_def)
  with tr show ?thesis by blast
qed

lemma label_round_trip_example:
  "\<exists>f ids. transform rt0 [[str ''x'', str ''y'']] (Some [[str ''B'', str ''O'']])
        (fst (fit rt0 [[str ''x'', str ''y'']] (Some [[str ''B'', str ''O'']])
               (init True True True [])))
       = Inr (f, Some ids)
     \<and> inverse_transform
          (fst (fit rt0 [[str ''x'', str ''y'']] (Some [[str ''B'', str ''O'']])
                 (init True True True []))) ids
       = Inr [[str ''B'', str ''O'']]"
proof -
  have "PAD \<notin> set (concat [[str ''B'', str ''O'']])"
    by (simp add: str_simps PAD_def)
  from label_round_trip [OF set_order_rt0 this refl]
  show ?thesis .
qed

text \<open>
  C7.  The claim: for every label corpus \<open>L\<close>, \<open>fit\<close>, then \<open>transform\<close>, then
  \<open>inverse_transform\<close> of the label ids returns \<open>L\<close>.  The label loop of \<open>fit\<close>
  assigns \<open>label_dic[t] = len(label_dic)\<close> without looking whether \<open>t\<close> is already a
  key; the word loop has the same omission, the character loop has the test.  On the label
  corpus \<open>[["<PAD>", "A"]]\<close>, with the label set iterated in this order, it
  overwrites the id of the key \<open><PAD>\<close> with 1 and then gives \<open>"A"\<close> the id 1 as
  well; \<open>transform\<close> returns \<open>[[1, 1]]\<close> and \<open>inverse_transform\<close> returns
  \<open>[["A", "A"]]\<close>.  (Iterated in the other order the two labels get the ids 1
  and 2.)
\<close>

theorem label_round_trip_reserved:
  "label_dic (fit_labels (init True True False []) [str ''<PAD>'', str ''A''])
       = [(PAD, 1), (str ''A'', 1)]
     \<and> label_dic (fit_labels (init True True False []) [str ''A'', str ''<PAD>''])
       = [(PAD, 2), (str ''A'', 1)]
     \<and> transform rt0 [[str ''x'', str ''y'']] (Some [[str ''<PAD>'', str ''A'']])
        (fst (fit rt0 [[str ''x'', str ''y'']] (Some [[str ''<PAD>'', str ''A'']])
               (init True True False [])))
       = Inr (([[2, 3]], None), Some [[1, 1]])
     \<and> inverse_transform
          (fst (fit rt0 [[str ''x'', str ''y'']] (Some [[str ''<PAD>'', str ''A'']])
                 (init True True False []))) [[1, 1]]
       = Inr [[str ''A'', str ''A'']]"
  by (simp add: ev inverse_transform_def id2label_def)

section \<open>fit\_transform\<close>

text \<open>
  C8.  For every corpus and label corpus, \<open>fit_transform\<close> on a fresh preprocessor
  returns what \<open>fit\<close> followed by \<open>transform\<close> returns on a fresh preprocessor, and
  leaves the same vocabularies behind.
\<close>

theorem fit_transform_is_fit_then_transform:
  "fit_transform rt X y (init lc nn cf vi) = fit_then_transform rt X y (init lc nn cf vi)"
  by (simp add: fit_transform_def fit_then_transform_def Let_def
      split: prod.splits option.splits)

section \<open>One-hot labels\<close>

text \<open>
  C9.  When label-id sequences are supplied, with every label id one of the
  \<open>labelCount\<close> ids \<open>0, \<dots>, labelCount - 1\<close>, the label output of
  \<open>DynamicPreprocessor.transform\<close> has one row per sentence, each as long as the
  longest label sequence (the length of the padded word rows when the label
  sequences are as long as the sentences).  Position \<open>j\<close> of row \<open>i\<close> is a vector
  of width \<open>labelCount\<close> with a \<open>1\<close> at the position of the \<open>j\<close>-th label id of
  sentence \<open>i\<close>, or at position 0 when \<open>j\<close> is a padded position, and \<open>0\<close>
  elsewhere; it contains exactly one \<open>1\<close>.  The call returns this output together
  with the padded word and character arrays; it returns whenever the character ids
  lie in the \<open>int32\<close> range, and otherwise passes on what \<open>pad_nested_sequences\<close>
  raises.
\<close>

theorem dynamic_transform_labels:
  assumes "\<forall>k \<in> set (concat y). 0 \<le> k \<and> k < int n"
  shows "\<exists>out. dynamic_transform rt \<lparr>n_labels = n\<rparr> (words, Some chars) (Some y)
            = (case pad_nested_sequences rt chars of
                 Inl e \<Rightarrow> Inl e
               | Inr cs \<Rightarrow> Inr ((pad_sequences words, cs), Some out))
     \<and> ((\<forall>c \<in> set (concat (concat chars)). - (2 ^ 31) \<le> c \<and> c < 2 ^ 31) \<longrightarrow>
          (\<exists>cs. pad_nested_sequences rt chars = Inr cs
             \<and> dynamic_transform rt \<lparr>n_labels = n\<rparr> (words, Some chars) (Some y)
                 = Inr ((pad_sequences words, cs), Some out)))
     \<and> length out = length y
     \<and> (\<forall>i < length y.
            length (out ! i) = Max (insert 0 (length ` set y))
          \<and> (map length y = map length words \<longrightarrow>
                length (out ! i) = length (pad_sequences words ! i))
          \<and> (\<forall>j < Max (insert 0 (length ` set y)).
                 length (out ! i ! j) = n
               \<and> count_list (out ! i ! j) 1 = 1
               \<and> (\<forall>m < n. out ! i ! j ! m =
                      (if int m = (if j < length (y ! i) then y ! i ! j else 0)
                       then 1 else 0))))"
proof -
  let ?out = "to_categorical (pad_sequences y) n"
  let ?L = "longest y"
  have tr: "dynamic_transform rt \<lparr>n_labels = n\<rparr> (words, Some chars) (Some y)
            = (case pad_nested_sequences rt chars of
                 Inl e \<Rightarrow> Inl e
               | Inr cs \<Rightarrow> Inr ((pad_sequences words, cs), Some ?out))"
    by (simp add: dynamic_transform_def split: sum.splits)
  have ret: "\<exists>cs. pad_nested_sequences rt chars = Inr cs
             \<and> dynamic_transform rt \<lparr>n_labels = n\<rparr> (words, Some chars) (Some y)
                 = Inr ((pad_sequences words, cs), Some ?out)"
    if "\<forall>c \<in> set (concat (concat chars)). - (2 ^ 31) \<le> c \<and> c < 2 ^ 31"
  proof -
    have "\<exists>cs. pad_nested_sequences rt chars = Inr cs"
      by (rule exI, rule pad_nested_ok) (use that in blast)
    then show ?thesis by (auto simp add: tr)
  qed
  have len: "length ?out = length y"
    by (simp add: to_categorical_def)
  have L: "Max (insert 0 (length ` set y)) = ?L"
    by (simp only: longest_Max)
  have rows: "length (?out ! i) = ?L
      \<and> (map length y = map length words \<longrightarrow>
            length (?out ! i) = length (pad_sequences words ! i))
      \<and> (\<forall>j < ?L.
             length (?out ! i ! j) = n
           \<and> count_list (?out ! i ! j) 1 = 1
           \<and> (\<forall>m < n. ?out ! i ! j ! m =
                  (if int m = (if j < length (y ! i) then y ! i ! j else 0)
                   then 1 else 0)))" if i: "i < length y" for i
  proof (intro conjI allI impI)
    from i have le: "length (y ! i) \<le> ?L"
      by (intro longest_ge) simp
    have row: "?out ! i = map (one_hot n) (y ! i @ replicate (?L - length (y ! i)) 0)"
      using i by (simp add: to_categorical_def pad_sequences_row)
    show rl: "length (?out ! i) = ?L"
      using le by (simp add: row)
    {
      assume eq: "map length y = map length words"
      then have "length words = length y"
        by (metis length_map)
      with i have iw: "i < length words" by simp
      from eq have "length (words ! i) = length (y ! i)"
        using i iw by (metis nth_map)
      moreover from eq have "longest words = ?L"
        by (rule longest_lengths [symmetric])
      ultimately show "length (?out ! i) = length (pad_sequences words ! i)"
        using le iw by (simp add: rl pad_sequences_row)
    }
    fix j assume j: "j < ?L"
    let ?k = "if j < length (y ! i) then y ! i ! j else 0"
    have cell: "?out ! i ! j = one_hot n ?k"
      using j le by (simp add: row nth_append)
    have k: "0 \<le> ?k \<and> ?k < int n"
    proof (cases "j < length (y ! i)")
      case True
      with i have "y ! i ! j \<in> set (concat y)" by (rule nth_nth_concat)
      with assms have "0 \<le> y ! i ! j \<and> y ! i ! j < int n" by blast
      with True show ?thesis by simp
    next
      case False
      from j have "concat y \<noteq> []" by (intro longest_pos) simp
      then obtain k0 where "k0 \<in> set (concat y)" by (cases "concat y") auto
      with assms have "0 < int n" by force
      with False show ?thesis by simp
    qed
    show "length (?out ! i ! j) = n"
      by (simp add: cell)
    show "count_list (?out ! i ! j) 1 = 1"
      unfolding cell using k by (intro count_one_hot) simp_all
    fix m assume "m < n"
    then show "?out ! i ! j ! m = (if int m = ?k then 1 else 0)"
      unfolding cell by (rule nth_one_hot)
  qed
  from tr ret len rows show ?thesis
    unfolding L by blast
qed

theorem dynamic_transform_labels_witness:
  "\<exists>out cs. pad_nested_sequences rt0 [[[1, 2], [3]], [[4, 5, 6]]] = Inr cs
     \<and> dynamic_transform rt0 \<lparr>n_labels = 3\<rparr>
            ([[5, 6], [7]], Some [[[1, 2], [3]], [[4, 5, 6]]]) (Some [[1, 2], [1]])
          = Inr ((pad_sequences [[5, 6], [7]], cs), Some out)
     \<and> length out = 2
     \<and> length (out ! 1) = 2
     \<and> length (out ! 1) = length (pad_sequences [[5, 6], [7]] ! 1)
     \<and> length (out ! 1 ! 1) = 3
     \<and> count_list (out ! 1 ! 1) 1 = 1
     \<and> out ! 1 ! 1 ! 0 = 1
     \<and> out ! 0 ! 1 ! 2 = 1"
proof -
  let ?y = "[[1, 2], [1::int]]"
  let ?chars = "[[[1, 2], [3]], [[4, 5, 6::int]]]"
  have r: "\<forall>k \<in> set (concat ?y). 0 \<le> k \<and> k < int 3"
    by simp
  have rc: "\<forall>c \<in> set (concat (concat ?chars)). - (2 ^ 31) \<le> c \<and> c < 2 ^ 31"
    by simp
  have L: "Max (insert 0 (length ` set ?y)) = 2"
    by simp
  from dynamic_transform_labels [OF r, unfolded L, of rt0 "[[5, 6], [7]]" ?chars]
  obtain out where
    ret: "(\<forall>c \<in> set (concat (concat ?chars)). - (2 ^ 31) \<le> c \<and> c < 2 ^ 31) \<longrightarrow>
          (\<exists>cs. pad_nested_sequences rt0 ?chars = Inr cs
             \<and> dynamic_transform rt0 \<lparr>n_labels = 3\<rparr> ([[5, 6], [7]], Some ?chars) (Some ?y)
                 = Inr ((pad_sequences [[5, 6], [7]], cs), Some out))"
    and len: "length out = length ?y"
    and rows: "\<forall>i < length ?y.
            length (out ! i) = 2
          \<and> (map length ?y = map length [[5, 6], [7::int]] \<longrightarrow>
                length (out ! i) = length (pad_sequences [[5, 6], [7]] ! i))
          \<and> (\<forall>j < 2.
                 length (out ! i ! j) = 3
               \<and> count_list (out ! i ! j) 1 = 1
               \<and> (\<forall>m < 3. out ! i ! j ! m =
                      (if int m = (if j < length (?y ! i) then ?y ! i ! j else 0)
                       then 1 else 0)))"
    by blast
  from ret rc obtain cs where cs: "pad_nested_sequences rt0 ?chars = Inr cs"
    "dynamic_transform rt0 \<lparr>n_labels = 3\<rparr> ([[5, 6], [7]], Some ?chars) (Some ?y)
       = Inr ((pad_sequences [[5, 6], [7]], cs), Some out)"
    by blast
  note ex = numeral_2_eq_2 numeral_3_eq_3 All_less_Suc
  from len have "length out = 2" by simp
  moreover from rows have "length (out ! 1) = 2" by (simp add: ex)
  moreover from rows have "length (out ! 1) = length (pad_sequences [[5, 6], [7]] ! 1)"
    by (simp add: ex)
  moreover from rows have "length (out ! 1 ! 1) = 3" by (simp add: ex)
  moreover from rows have "count_list (out ! 1 ! 1) 1 = 1" by (simp add: ex)
  moreover from rows have "out ! 1 ! 1 ! 0 = 1" by (simp add: ex)
  moreover from rows have "out ! 0 ! 1 ! 2 = 1" by (simp add: ex)
  ultimately show ?thesis using cs by blast
qed

section \<open>The scenario with digits\<close>

text \<open>
  C10.  With \<open>lowercase\<close> and \<open>num_norm\<close>, after fitting on
  \<open>[["I", "saw", "2", "cats"]]\<close> with labels \<open>[["O", "O", "O", "O"]]\<close>, the word
  \<open>"2"\<close> is encoded by the id of its normalised form \<open>"0"\<close>, which differs from the
  ids of the three other words (and from the \<open>UNK\<close> id); in
  \<open>[["I", "saw", "9", "dogs"]]\<close> the word \<open>"9"\<close> gets that same id and \<open>"dogs"\<close>
  gets the \<open>UNK\<close> id 1.  This holds in every order in which the word set is
  iterated.
\<close>

theorem scenario_digits:
  assumes "set_order (set_iter rt)" and "lower_on_ascii (str_lower rt)"
    and "p = fst (fit rt [[str ''I'', str ''saw'', str ''2'', str ''cats'']]
                   (Some [[str ''O'', str ''O'', str ''O'', str ''O'']])
                   (init True True cf []))"
  shows "\<exists>a b c d ch ch'.
       transform rt [[str ''I'', str ''saw'', str ''2'', str ''cats'']] None p
         = Inr (([[a, b, c, d]], ch), None)
     \<and> map_of (word_dic p) (str ''0'') = Some c
     \<and> c \<noteq> a \<and> c \<noteq> b \<and> c \<noteq> d \<and> c \<noteq> 1
     \<and> transform rt [[str ''I'', str ''saw'', str ''9'', str ''dogs'']] None p
         = Inr (([[a, b, c, 1]], ch'), None)"
proof -
  let ?p0 = "init True True cf []"
  let ?X0 = "[[str ''I'', str ''saw'', str ''2'', str ''cats'']]"
  let ?ws = "set_iter rt (concat ?X0 @ [])"
  let ?ks = "map (norm_word rt ?p0) ?ws"
  let ?d = "word_dic p"
  have lw: "str_lower rt w = ascii_lower w" if "\<forall>c \<in> set w. c < 128" for w
    using assms(2) that by (simp add: lower_on_ascii_def)
  have n0: "norm_word rt ?p0 w = normalize_number (ascii_lower w)"
    if "\<forall>c \<in> set w. c < 128" for w
    by (simp add: norm_word_def lw [OF that])
  have nn: "norm_word rt ?p0 (str ''I'') = str ''i''"
    "norm_word rt ?p0 (str ''saw'') = str ''saw''"
    "norm_word rt ?p0 (str ''2'') = str ''0''"
    "norm_word rt ?p0 (str ''cats'') = str ''cats''"
    "norm_word rt ?p0 (str ''9'') = str ''0''"
    "norm_word rt ?p0 (str ''dogs'') = str ''dogs''"
    by (subst n0; simp add: str_simps ascii_lower_def normalize_number_def is_digit_def)+
  have n: "norm_word rt p = norm_word rt ?p0"
    by (rule ext, rule norm_word_cong) (simp_all add: assms(3) fit_fields)
  have ws: "distinct ?ws" "set ?ws = {str ''I'', str ''saw'', str ''2'', str ''cats''}"
    using assms(1) by (simp_all add: set_order_def)
  note nn' = nn [unfolded str_simps, simplified]
  have "inj_on (norm_word rt ?p0) (set ?ws)"
    unfolding ws(2) by (simp add: str_simps nn')
  with ws(1) have dk: "distinct ?ks"
    by (simp add: distinct_map)
  have sk: "set ?ks = {str ''i'', str ''saw'', str ''0'', str ''cats''}"
    unfolding set_map ws(2) by (simp add: nn)
  have fresh: "set ?ks \<inter> fst ` set [(PAD, 0::int), (UNK, 1)] = {}"
    unfolding sk by (simp add: str_simps PAD_def UNK_def)
  have d: "?d = assign_all [(PAD, 0), (UNK, 1)] ?ks"
    by (simp add: assms(3) fit_fields)
  have vals: "distinct (map snd ?d)"
    unfolding d assign_all_fresh_values [OF dk fresh]
    by (auto simp add: distinct_map inj_on_def)
  have keys: "fst ` set ?d = {PAD, UNK, str ''i'', str ''saw'', str ''0'', str ''cats''}"
    unfolding d keys_assign_all sk by auto
  have "UNK \<notin> set ?ks"
    using fresh by simp
  from map_of_assign_all_other [OF this, of "[(PAD, 0), (UNK, 1)]"]
  have uw: "map_of ?d UNK = Some 1"
    using UNK_neq_PAD by (simp add: d)
  have uc: "map_of (char_dic p) UNK = Some 1"
    unfolding assms(3) by (rule fit_char_unk) (rule init_unk)
  have ex: "\<exists>v. map_of ?d k = Some v" if "k \<in> fst ` set ?d" for k
    using that by (simp flip: contains_keys add: contains_def)
  obtain a where a: "map_of ?d (str ''i'') = Some a" using ex keys by blast
  obtain b where b: "map_of ?d (str ''saw'') = Some b" using ex keys by blast
  obtain c where c: "map_of ?d (str ''0'') = Some c" using ex keys by blast
  obtain e where e: "map_of ?d (str ''cats'') = Some e" using ex keys by blast
  have "str ''dogs'' \<notin> fst ` set ?d"
    unfolding keys by (simp add: str_simps PAD_def UNK_def)
  then have dogs: "get ?d (str ''dogs'') 1 = 1"
    by (simp add: get_absent contains_keys)
  have ne: "c \<noteq> a" "c \<noteq> b" "c \<noteq> e" "c \<noteq> 1"
    using map_of_inj_values [OF vals c, of "str ''i''"] a
      map_of_inj_values [OF vals c, of "str ''saw''"] b
      map_of_inj_values [OF vals c, of "str ''cats''"] e
      map_of_inj_values [OF vals c, of UNK] uw
    by (auto simp add: str_simps UNK_def)
  have t1: "transform rt ?X0 None p =
      Inr (([[a, b, c, e]],
            if char_feature p then Some (map (map (map (\<lambda>c. get (char_dic p) [c] 1))) ?X0)
            else None), None)"
    unfolding transform_None_ok [OF uw uc]
    by (simp add: n nn get_present a b c e)
  have t2: "transform rt [[str ''I'', str ''saw'', str ''9'', str ''dogs'']] None p =
      Inr (([[a, b, c, 1]],
            if char_feature p
            then Some (map (map (map (\<lambda>c. get (char_dic p) [c] 1)))
                    [[str ''I'', str ''saw'', str ''9'', str ''dogs'']])
            else None), None)"
    unfolding transform_None_ok [OF uw uc]
    by (simp add: n nn get_present a b c dogs)
  from t1 t2 c ne show ?thesis by blast
qed

theorem scenario_digits_witness:
  "\<exists>a b c d ch ch'.
       transform rt0 [[str ''I'', str ''saw'', str ''2'', str ''cats'']] None
         (fst (fit rt0 [[str ''I'', str ''saw'', str ''2'', str ''cats'']]
                   (Some [[str ''O'', str ''O'', str ''O'', str ''O'']])
                   (init True True True [])))
         = Inr (([[a, b, c, d]], ch), None)
     \<and> map_of (word_dic (fst (fit rt0 [[str ''I'', str ''saw'', str ''2'', str ''cats'']]
                   (Some [[str ''O'', str ''O'', str ''O'', str ''O'']])
                   (init True True True [])))) (str ''0'') = Some c
     \<and> c \<noteq> a \<and> c \<noteq> b \<and> c \<noteq> d \<and> c \<noteq> 1
     \<and> transform rt0 [[str ''I'', str ''saw'', str ''9'', str ''dogs'']] None
         (fst (fit rt0 [[str ''I'', str ''saw'', str ''2'', str ''cats'']]
                   (Some [[str ''O'', str ''O'', str ''O'', str ''O'']])
                   (init True True True [])))
         = Inr (([[a, b, c, 1]], ch'), None)"
  using scenario_digits [OF set_order_rt0 lower_on_ascii_rt0 refl, where cf = True] .

end
